theory Spec2Isabelle
  imports Main "HOL-Library.Word"
begin

unbundle bit_operations_syntax

section \<open>Data model\<close>

text \<open>
  The repository holds two SystemC modules: \<open>Memory\<close>, a paged byte store, and \<open>Cache\<close>,
  a multi-level direct-mapped cache. Each module runs one thread that wakes on a rising
  clock edge, samples its input signals, works on its private arrays and drives its output
  signals. One pass through the body of that thread's \<open>while (true)\<close> loop is modelled
  as a function from the module's state and the signal values to the new state and the new
  signal values.

  \<open>uint32_t\<close> and \<open>uint8_t\<close> are 32-bit and 8-bit words. A \<open>std::vector\<close> is a list.
  \<open>operator[]\<close> beyond the end of a vector and integer division by zero are undefined in
  C++; the model makes both an explicit \<open>fault\<close>, after which no state is reported.
\<close>

type_synonym u8 = "8 word"
type_synonym u32 = "32 word"

datatype fault = IndexOutOfRange | DivideByZero

definition vec_at :: "'a list \<Rightarrow> nat \<Rightarrow> fault + 'a" where
  "vec_at xs i = (if i < length xs then Inr (xs ! i) else Inl IndexOutOfRange)"

text \<open>\<open>struct CacheLine { bool valid; uint32_t tag; std::vector<uint8_t> data; }\<close>\<close>

record CacheLine =
  valid :: bool
  tag :: u32
  data :: "u8 list"

text \<open>
  The signals bound to a module's ports: \<open>read\<close>, \<open>write\<close>, \<open>address\<close>, \<open>w_data\<close> are
  inputs, \<open>r_data\<close> and \<open>ready\<close> outputs. Both modules have the same port list.
\<close>

record signals =
  read_sig :: bool
  write_sig :: bool
  address :: u32
  w_data :: u32
  r_data :: u32
  ready :: bool

text \<open>The private members of \<open>class Cache\<close>.\<close>

record Cache =
  caches :: "CacheLine list list"
  cache_sizes :: "u32 list"
  line_sizes :: "u32 list"
  latencies :: "u32 list"
  levels :: u8

text \<open>
  The result of one pass of \<open>Cache::process_cache\<close>: the members, the signals, and the
  simulated time (in ns) spent in \<open>wait(latencies[level], SC_NS)\<close> before \<open>ready\<close> is raised.
\<close>

record cache_tick =
  cache_after :: Cache
  sigs_after :: signals
  waited :: nat

section \<open>The cache\<close>

text \<open>
  The constructor: two levels of 1024 and 2048 bytes, 64-byte lines, latencies 1 and 3;
  level \<open>i\<close> gets \<open>cache_sizes[i] / line_sizes[i]\<close> invalid lines of \<open>line_sizes[i]\<close> zero bytes.
\<close>

definition Cache_init :: Cache where
  "Cache_init =
     (let sizes = [1024, 2048]; lsizes = [64, 64] in
      \<lparr> caches = map (\<lambda>i. replicate (unat ((sizes ! i) div (lsizes ! i)))
                               \<lparr> valid = False, tag = 0, data = replicate (unat (lsizes ! i)) 0 \<rparr>)
                      [0..<2],
        cache_sizes = sizes, line_sizes = lsizes, latencies = [1, 3], levels = 2 \<rparr>)"

text \<open>
  The loop of \<open>search_cache\<close>: \<open>for (i = 0; i < 4; i++) data = (data << 8) | line.data[offset + i]\<close>.
  \<open>offset + i\<close> is computed in \<open>uint32_t\<close>.
\<close>

fun read_bytes :: "u8 list \<Rightarrow> u32 \<Rightarrow> nat list \<Rightarrow> u32 \<Rightarrow> fault + u32" where
  "read_bytes bs offset [] d = Inr d"
| "read_bytes bs offset (i # is) d =
     (case vec_at bs (unat (offset + of_nat i)) of
        Inl f \<Rightarrow> Inl f
      | Inr b \<Rightarrow> read_bytes bs offset is (push_bit 8 d OR ucast b))"

text \<open>
  The loop of \<open>update_cache\<close>:
  \<open>for (i = 3; i >= 0; i--) { line.data[offset + i] = data & 0xFF; data >>= 8; }\<close>.
\<close>

fun write_bytes :: "u8 list \<Rightarrow> u32 \<Rightarrow> nat list \<Rightarrow> u32 \<Rightarrow> fault + u8 list" where
  "write_bytes bs offset [] d = Inr bs"
| "write_bytes bs offset (i # is) d =
     (let k = unat (offset + of_nat i) in
      if k < length bs
      then write_bytes (bs[k := ucast (d AND 0xFF)]) offset is (drop_bit 8 d)
      else Inl IndexOutOfRange)"

text \<open>
  \<open>bool Cache::search_cache(uint32_t level, uint32_t addr, uint32_t& data)\<close>. The result
  pairs the returned flag with the value of the reference parameter \<open>data\<close>, which a miss
  leaves as it was.
\<close>

definition search_cache :: "Cache \<Rightarrow> nat \<Rightarrow> u32 \<Rightarrow> u32 \<Rightarrow> fault + (bool \<times> u32)" where
  "search_cache c level addr d =
     (case vec_at (line_sizes c) level of
        Inl f \<Rightarrow> Inl f
      | Inr ls \<Rightarrow>
          if ls = 0 then Inl DivideByZero
          else
            (case vec_at (caches c) level of
               Inl f \<Rightarrow> Inl f
             | Inr lines \<Rightarrow>
                 if length lines = 0 then Inl DivideByZero
                 else
                   (let tg = addr div ls;
                        index = (word_of_nat (unat (addr div ls) mod length lines) :: u32);
                        offset = addr mod ls
                    in case vec_at lines (unat index) of
                         Inl f \<Rightarrow> Inl f
                       | Inr line \<Rightarrow>
                           if valid line \<and> tag line = tg
                           then (case read_bytes (data line) offset [0, 1, 2, 3] 0 of
                                   Inl f \<Rightarrow> Inl f
                                 | Inr d' \<Rightarrow> Inr (True, d'))
                           else Inr (False, d))))"

text \<open>\<open>void Cache::update_cache(uint32_t level, uint32_t addr, uint32_t data)\<close>\<close>

definition update_cache :: "Cache \<Rightarrow> nat \<Rightarrow> u32 \<Rightarrow> u32 \<Rightarrow> fault + Cache" where
  "update_cache c level addr d =
     (case vec_at (line_sizes c) level of
        Inl f \<Rightarrow> Inl f
      | Inr ls \<Rightarrow>
          if ls = 0 then Inl DivideByZero
          else
            (case vec_at (caches c) level of
               Inl f \<Rightarrow> Inl f
             | Inr lines \<Rightarrow>
                 if length lines = 0 then Inl DivideByZero
                 else
                   (let tg = addr div ls;
                        index = (word_of_nat (unat (addr div ls) mod length lines) :: u32);
                        offset = addr mod ls
                    in case vec_at lines (unat index) of
                         Inl f \<Rightarrow> Inl f
                       | Inr line \<Rightarrow>
                           (case write_bytes (data line) offset [3, 2, 1, 0] d of
                              Inl f \<Rightarrow> Inl f
                            | Inr bs \<Rightarrow>
                                Inr (c\<lparr> caches := (caches c)
                                       [level := lines[unat index :=
                                          \<lparr> valid = True, tag = tg, data = bs \<rparr>]] \<rparr>)))))"

text \<open>
  The read loop of \<open>process_cache\<close> over the levels: the first level whose \<open>search_cache\<close>
  returns true ends the loop (\<open>break\<close>); the result is that level, if any, and \<open>data\<close>.
\<close>

fun search_levels :: "Cache \<Rightarrow> nat list \<Rightarrow> u32 \<Rightarrow> u32 \<Rightarrow> fault + (nat option \<times> u32)" where
  "search_levels c [] addr d = Inr (None, d)"
| "search_levels c (level # rest) addr d =
     (case search_cache c level addr d of
        Inl f \<Rightarrow> Inl f
      | Inr (hit, d') \<Rightarrow> if hit then Inr (Some level, d') else search_levels c rest addr d')"

text \<open>The loop \<open>for (level = 0; level < levels; level++) update_cache(level, addr, data)\<close>.\<close>

fun update_levels :: "Cache \<Rightarrow> nat list \<Rightarrow> u32 \<Rightarrow> u32 \<Rightarrow> fault + Cache" where
  "update_levels c [] addr d = Inr c"
| "update_levels c (level # rest) addr d =
     (case update_cache c level addr d of
        Inl f \<Rightarrow> Inl f
      | Inr c' \<Rightarrow> update_levels c' rest addr d)"

text \<open>
  One pass of the loop body of \<open>Cache::process_cache\<close>, from the clock edge to the next
  \<open>wait()\<close>. A read is tested first, so the \<open>write\<close> signal is looked at only when \<open>read\<close>
  is low. A full miss takes the constant \<open>0xDEADBEEF\<close> as the fetched word.
\<close>

definition process_cache :: "Cache \<Rightarrow> signals \<Rightarrow> fault + cache_tick" where
  "process_cache c s =
     (let s0 = s\<lparr> ready := False \<rparr>;
          addr = address s0;
          all_levels = [0..<unat (levels c)]
      in if read_sig s0 then
           (case search_levels c all_levels addr 0 of
              Inl f \<Rightarrow> Inl f
            | Inr (Some level, d) \<Rightarrow>
                (case vec_at (latencies c) level of
                   Inl f \<Rightarrow> Inl f
                 | Inr lat \<Rightarrow>
                     Inr \<lparr> cache_after = c,
                           sigs_after = s0\<lparr> r_data := d, ready := True \<rparr>,
                           waited = unat lat \<rparr>)
            | Inr (None, d) \<Rightarrow>
                (case update_levels c all_levels addr 0xDEADBEEF of
                   Inl f \<Rightarrow> Inl f
                 | Inr c' \<Rightarrow>
                     Inr \<lparr> cache_after = c',
                           sigs_after = s0\<lparr> r_data := 0xDEADBEEF, ready := True \<rparr>,
                           waited = 0 \<rparr>))
         else if write_sig s0 then
           (case update_levels c all_levels addr (w_data s0) of
              Inl f \<Rightarrow> Inl f
            | Inr c' \<Rightarrow>
                Inr \<lparr> cache_after = c', sigs_after = s0\<lparr> ready := True \<rparr>, waited = 0 \<rparr>)
         else Inr \<lparr> cache_after = c, sigs_after = s0, waited = 0 \<rparr>)"

section \<open>The memory\<close>

text \<open>
  \<open>Memory\<close> holds \<open>page_num\<close> pages of \<open>page_size\<close> bytes, all zero at construction. The
  pages are modelled as a function from page and position to the byte, with the two sizes
  checked at every access.
\<close>

definition page_size :: nat where
  "page_size = 4 * 1024"

definition page_num :: nat where
  "page_num = 1024 * 1024"

type_synonym Memory = "nat \<Rightarrow> nat \<Rightarrow> u8"

definition Memory_init :: Memory where
  "Memory_init = (\<lambda>page position. 0)"

text \<open>\<open>for (i = 3; i >= 0; i--) data = (data << 8) | memory[page][position + i]\<close>\<close>

fun mem_read_bytes :: "Memory \<Rightarrow> nat \<Rightarrow> nat \<Rightarrow> nat list \<Rightarrow> u32 \<Rightarrow> fault + u32" where
  "mem_read_bytes m page position [] d = Inr d"
| "mem_read_bytes m page position (i # is) d =
     (if page < page_num \<and> position + i < page_size
      then mem_read_bytes m page position is (push_bit 8 d OR ucast (m page (position + i)))
      else Inl IndexOutOfRange)"

text \<open>\<open>for (i = 0; i < 4; i++) { memory[page][position + i] = data & 0xFF; data >>= 8; }\<close>\<close>

fun mem_write_bytes :: "Memory \<Rightarrow> nat \<Rightarrow> nat \<Rightarrow> nat list \<Rightarrow> u32 \<Rightarrow> fault + Memory" where
  "mem_write_bytes m page position [] d = Inr m"
| "mem_write_bytes m page position (i # is) d =
     (if page < page_num \<and> position + i < page_size
      then mem_write_bytes (m(page := (m page)(position + i := ucast (d AND 0xFF))))
             page position is (drop_bit 8 d)
      else Inl IndexOutOfRange)"

text \<open>
  One pass of the loop body of \<open>Memory::process_memory\<close>. With \<open>read\<close> and \<open>write\<close> both
  high it only prints a diagnostic and touches neither the pages nor \<open>r_data\<close>.
\<close>

definition process_memory :: "Memory \<Rightarrow> signals \<Rightarrow> fault + (Memory \<times> signals)" where
  "process_memory m s =
     (let s0 = s\<lparr> ready := False \<rparr>;
          addr = address s0;
          page = unat (addr div word_of_nat page_size);
          position = unat (addr mod word_of_nat page_size)
      in if read_sig s0 \<and> write_sig s0 then Inr (m, s0\<lparr> ready := True \<rparr>)
         else if read_sig s0 then
           (case mem_read_bytes m page position [3, 2, 1, 0] 0 of
              Inl f \<Rightarrow> Inl f
            | Inr d \<Rightarrow> Inr (m, s0\<lparr> r_data := d, ready := True \<rparr>))
         else if write_sig s0 then
           (case mem_write_bytes m page position [0, 1, 2, 3] (w_data s0) of
              Inl f \<Rightarrow> Inl f
            | Inr m' \<Rightarrow> Inr (m', s0\<lparr> ready := True \<rparr>))
         else Inr (m, s0\<lparr> ready := True \<rparr>))"

section \<open>Requests, successive passes and sample states\<close>

text \<open>
  The signal values the test benches drive: a word written to \<open>address\<close> with one of
  \<open>read\<close> and \<open>write\<close> raised, or with both raised; \<open>r_data\<close> and \<open>ready\<close> start at
  their initial values.
\<close>

definition read_request :: "u32 \<Rightarrow> signals" where
  "read_request a =
     \<lparr> read_sig = True, write_sig = False, address = a, w_data = 0, r_data = 0, ready = False \<rparr>"

definition write_request :: "u32 \<Rightarrow> u32 \<Rightarrow> signals" where
  "write_request a v =
     \<lparr> read_sig = False, write_sig = True, address = a, w_data = v, r_data = 0, ready = False \<rparr>"

definition both_request :: "u32 \<Rightarrow> u32 \<Rightarrow> signals" where
  "both_request a v =
     \<lparr> read_sig = True, write_sig = True, address = a, w_data = v, r_data = 0, ready = False \<rparr>"

text \<open>
  The next iteration of the thread's loop, run on the members the previous pass left, and a
  lookup in those members. A fault ends the run.
\<close>

definition then_pass :: "fault + cache_tick \<Rightarrow> signals \<Rightarrow> fault + cache_tick" where
  "then_pass r s = (case r of Inl f \<Rightarrow> Inl f | Inr t \<Rightarrow> process_cache (cache_after t) s)"

definition then_search :: "fault + cache_tick \<Rightarrow> nat \<Rightarrow> u32 \<Rightarrow> fault + (bool \<times> u32)" where
  "then_search r level addr =
     (case r of Inl f \<Rightarrow> Inl f | Inr t \<Rightarrow> search_cache (cache_after t) level addr 0)"

text \<open>
  The members after a write of \<open>0x12345678\<close> to address 0 followed by a write of \<open>0x55\<close> to
  address \<open>0x400\<close>. The two addresses share slot 0 of level 0 (16 lines) and fall into slots
  0 and 16 of level 1 (32 lines). \<open>update_cache\<close> overwrites four bytes of the line it
  finds, so the level-0 line carries both writes at offset 0.
\<close>

definition conflict_sample :: Cache where
  "conflict_sample =
     Cache_init\<lparr> caches :=
       [(caches Cache_init ! 0)
          [0 := \<lparr> valid = True, tag = 16,
                  data = (replicate 64 0)[3 := 0x78, 2 := 0x56, 1 := 0x34, 0 := 0x12,
                                          3 := 0x55, 2 := 0, 1 := 0, 0 := 0] \<rparr>],
        (caches Cache_init ! 1)
          [0 := \<lparr> valid = True, tag = 0,
                  data = (replicate 64 0)[3 := 0x78, 2 := 0x56, 1 := 0x34, 0 := 0x12] \<rparr>,
           16 := \<lparr> valid = True, tag = 16,
                   data = (replicate 64 0)[3 := 0x55, 2 := 0, 1 := 0, 0 := 0] \<rparr>]] \<rparr>"

section \<open>Well-formed states\<close>

text \<open>
  The shape the constructor gives the arrays: one entry per level in every vector, at level
  \<open>l\<close> exactly \<open>cache_sizes[l] / line_sizes[l]\<close> lines, each with \<open>line_sizes[l]\<close> bytes.
\<close>

definition struct_inv :: "Cache \<Rightarrow> bool" where
  "struct_inv c \<longleftrightarrow>
     length (caches c) = unat (levels c) \<and>
     length (cache_sizes c) = unat (levels c) \<and>
     length (line_sizes c) = unat (levels c) \<and>
     (\<forall>l \<in> {0..<unat (levels c)}.
        length (caches c ! l) = unat (cache_sizes c ! l div line_sizes c ! l) \<and>
        (\<forall>ln \<in> set (caches c ! l). length (data ln) = unat (line_sizes c ! l)))"

text \<open>
  A configuration on which the address arithmetic is defined: a latency per level, no line
  size of zero and no level without lines.
\<close>

definition config_ok :: "Cache \<Rightarrow> bool" where
  "config_ok c \<longleftrightarrow>
     struct_inv c \<and> length (latencies c) = unat (levels c) \<and>
     (\<forall>l \<in> {0..<unat (levels c)}. line_sizes c ! l \<noteq> 0 \<and> caches c ! l \<noteq> [])"

text \<open>The four bytes at \<open>addr\<close> lie inside one line at every level: \<open>offset + 4 \<le> line_size\<close>.\<close>

definition access_fits :: "Cache \<Rightarrow> u32 \<Rightarrow> bool" where
  "access_fits c a \<longleftrightarrow>
     (\<forall>l \<in> {0..<unat (levels c)}. unat (a mod line_sizes c ! l) + 4 \<le> unat (line_sizes c ! l))"

text \<open>No line of any level is valid: nothing has been written or filled yet.\<close>

definition cold :: "Cache \<Rightarrow> bool" where
  "cold c \<longleftrightarrow> (\<forall>lines \<in> set (caches c). \<forall>ln \<in> set lines. \<not> valid ln)"

section \<open>Vectors and indices\<close>

text \<open>
  An index below the length reads the element. The slot computed in \<open>size_t\<close> and stored in
  a \<open>uint32_t\<close> loses nothing, since it is at most the block number.
\<close>

lemma vec_at_in: "i < length xs \<Longrightarrow> vec_at xs i = Inr (xs ! i)"
  by (simp add: vec_at_def)

lemma index_unat:
  fixes w :: u32
  shows "unat (word_of_nat (unat w mod n) :: u32) = unat w mod n"
proof -
  have "unat w mod n \<le> unat w" by simp
  moreover have "unat w < 2 ^ 32" using unsigned_less [of w] by simp
  ultimately have "unat w mod n < 2 ^ 32" by (rule le_less_trans)
  then show ?thesis by (simp add: unat_of_nat)
qed

section \<open>Bytes and words\<close>

text \<open>
  \<open>update_cache\<close> stores a word most significant byte first and \<open>search_cache\<close> reads it
  back in the same order.
\<close>

lemma low_byte: "(ucast ((x::u32) AND 0xFF) :: u8) = ucast x"
proof -
  have "(0xFF :: u32) = mask 8" by (simp add: mask_eq_exp_minus_1)
  then have "x AND 0xFF = take_bit 8 x" by (simp add: take_bit_eq_mask)
  moreover have "(ucast (take_bit 8 x) :: u8) = ucast x"
    by (rule bit_word_eqI) (simp add: bit_simps)
  ultimately show ?thesis by simp
qed

lemma word_bytes_roundtrip:
  fixes v :: u32
  shows "((push_bit 24 (ucast (ucast (drop_bit 24 v) :: u8)) OR
           push_bit 16 (ucast (ucast (drop_bit 16 v) :: u8))) OR
           push_bit 8 (ucast (ucast (drop_bit 8 v) :: u8))) OR
           ucast (ucast v :: u8) = v" (is "?lhs = v")
proof (rule bit_word_eqI)
  fix n assume "n < LENGTH(32)"
  then have n: "n < 32" by simp
  consider "n < 8" | "8 \<le> n" "n < 16" | "16 \<le> n" "n < 24" | "24 \<le> n" "n < 32"
    using n by linarith
  then show "bit ?lhs n = bit v n"
  proof cases
    case 1 then show ?thesis by (simp add: bit_simps)
  next
    case 2 then show ?thesis by (auto simp: bit_simps)
  next
    case 3 then show ?thesis by (auto simp: bit_simps)
  next
    case 4 then show ?thesis by (auto simp: bit_simps)
  qed
qed

lemma off_distinct:
  fixes off :: u32
  shows "unat (off + 1) \<noteq> unat off" "unat (off + 2) \<noteq> unat off" "unat (off + 3) \<noteq> unat off"
        "unat (off + 2) \<noteq> unat (off + 1)" "unat (off + 3) \<noteq> unat (off + 1)" "unat (off + 3) \<noteq> unat (off + 2)"
  by (simp_all add: word_unat_eq_iff[symmetric])

lemma write_bytes_Inr:
  assumes "write_bytes bs off [3, 2, 1, 0] v = Inr bs'"
  shows "bs' = bs[unat (off + 3) := ucast v, unat (off + 2) := ucast (drop_bit 8 v),
                  unat (off + 1) := ucast (drop_bit 8 (drop_bit 8 v)),
                  unat off := ucast (drop_bit 8 (drop_bit 8 (drop_bit 8 v)))]"
    and "unat (off + 3) < length bs" and "unat (off + 2) < length bs"
    and "unat (off + 1) < length bs" and "unat off < length bs"
  using assms by (simp_all add: Let_def low_byte split: if_splits)

lemma write_bytes_length:
  "write_bytes bs off is v = Inr bs' \<Longrightarrow> length bs' = length bs"
  by (induction "is" arbitrary: bs v) (auto simp: Let_def split: if_splits)

lemma write_then_read:
  assumes "write_bytes bs off [3, 2, 1, 0] v = Inr bs'"
  shows "read_bytes bs' off [0, 1, 2, 3] 0 = Inr v"
proof -
  note w = write_bytes_Inr [OF assms]
  show ?thesis
    unfolding w(1) using w(2-5)
    by (simp add: vec_at_def off_distinct off_distinct [symmetric] word_bytes_roundtrip)
qed

lemma write_bytes_fits:
  assumes "unat off + 4 \<le> length bs" "length bs < 2 ^ 32"
  shows "\<exists>bs'. write_bytes bs off [3, 2, 1, 0] v = Inr bs'"
proof -
  have "unat (off + 3) = unat off + 3" "unat (off + 2) = unat off + 2" "unat (off + 1) = unat off + 1"
    using assms by (simp_all add: unat_word_ariths)
  then show ?thesis using assms by (simp add: Let_def)
qed

lemma read_bytes_fits:
  assumes "unat off + 4 \<le> length bs" "length bs < 2 ^ 32"
  shows "\<exists>d. read_bytes bs off [0, 1, 2, 3] 0 = Inr d"
proof -
  have "unat (off + 3) = unat off + 3" "unat (off + 2) = unat off + 2" "unat (off + 1) = unat off + 1"
    using assms by (simp_all add: unat_word_ariths)
  then show ?thesis using assms by (simp add: vec_at_def)
qed

lemma read_bytes_value:
  assumes "read_bytes bs off [0, 1, 2, 3] 0 = Inr d"
  shows "d = ((push_bit 24 (ucast (bs ! unat off)) OR push_bit 16 (ucast (bs ! unat (off + 1)))) OR
               push_bit 8 (ucast (bs ! unat (off + 2)))) OR ucast (bs ! unat (off + 3))"
  using assms by (auto simp: vec_at_def split: if_splits)

section \<open>One level\<close>

text \<open>
  What \<open>update_cache\<close> leaves behind when it returns, and what \<open>search_cache\<close> finds there.
\<close>

lemma update_cache_Inr:
  assumes "update_cache c level addr v = Inr c'"
  obtains bs where
    "level < length (line_sizes c)" "line_sizes c ! level \<noteq> 0"
    "level < length (caches c)" "caches c ! level \<noteq> []"
    "write_bytes (data (caches c ! level ! (unat (addr div line_sizes c ! level) mod length (caches c ! level))))
       (addr mod line_sizes c ! level) [3, 2, 1, 0] v = Inr bs"
    "c' = c\<lparr> caches := (caches c)[level := (caches c ! level)
             [unat (addr div line_sizes c ! level) mod length (caches c ! level) :=
                \<lparr> valid = True, tag = addr div line_sizes c ! level, data = bs \<rparr>]] \<rparr>"
  using assms unfolding update_cache_def vec_at_def
  by (auto simp: Let_def index_unat split: if_splits sum.splits)

lemma update_cache_config:
  assumes "update_cache c level addr v = Inr c'"
  shows "line_sizes c' = line_sizes c" "cache_sizes c' = cache_sizes c"
    "latencies c' = latencies c" "levels c' = levels c" "length (caches c') = length (caches c)"
  using assms by (auto elim!: update_cache_Inr)

lemma update_cache_lines_length:
  "update_cache c level a v = Inr c' \<Longrightarrow> length (caches c' ! l) = length (caches c ! l)"
  by (erule update_cache_Inr) (cases "l = level", simp_all)

lemma search_after_update:
  assumes "update_cache c level addr v = Inr c'"
  shows "search_cache c' level addr d = Inr (True, v)"
proof -
  from assms obtain bs where u:
    "level < length (line_sizes c)" "line_sizes c ! level \<noteq> 0"
    "level < length (caches c)" "caches c ! level \<noteq> []"
    "write_bytes (data (caches c ! level ! (unat (addr div line_sizes c ! level) mod length (caches c ! level))))
       (addr mod line_sizes c ! level) [3, 2, 1, 0] v = Inr bs"
    "c' = c\<lparr> caches := (caches c)[level := (caches c ! level)
             [unat (addr div line_sizes c ! level) mod length (caches c ! level) :=
                \<lparr> valid = True, tag = addr div line_sizes c ! level, data = bs \<rparr>]] \<rparr>"
    by (rule update_cache_Inr)
  have r: "read_bytes bs (addr mod line_sizes c ! level) [0, 1, 2, 3] 0 = Inr v"
    using u(5) by (rule write_then_read)
  show ?thesis
    unfolding search_cache_def vec_at_def u(6) using u(1-4) r
    by (simp add: Let_def index_unat)
qed

lemma search_other_level:
  assumes "update_cache c level addr v = Inr c'" "level' \<noteq> level"
  shows "search_cache c' level' a d = search_cache c level' a d"
  using assms(1)
proof (rule update_cache_Inr)
  fix bs
  assume "c' = c\<lparr> caches := (caches c)[level := (caches c ! level)
             [unat (addr div line_sizes c ! level) mod length (caches c ! level) :=
                \<lparr> valid = True, tag = addr div line_sizes c ! level, data = bs \<rparr>]] \<rparr>"
  then show ?thesis using assms(2)
    by (simp add: search_cache_def vec_at_def)
qed

lemma search_cache_no_match:
  assumes "level < length (line_sizes c)" "level < length (caches c)"
    "line_sizes c ! level \<noteq> 0" "caches c ! level \<noteq> []"
    "\<not> (valid (caches c ! level ! (unat (addr div line_sizes c ! level) mod length (caches c ! level))) \<and>
        tag (caches c ! level ! (unat (addr div line_sizes c ! level) mod length (caches c ! level)))
          = addr div line_sizes c ! level)"
  shows "search_cache c level addr d = Inr (False, d)"
proof -
  have "unat (addr div line_sizes c ! level) mod length (caches c ! level) < length (caches c ! level)"
    using assms(4) by simp
  then show ?thesis
    using assms by (auto simp: search_cache_def vec_at_in Let_def index_unat)
qed

lemma search_conflict:
  assumes "update_cache c level a2 v = Inr c'"
    "a1 div line_sizes c ! level \<noteq> a2 div line_sizes c ! level"
    "unat (a1 div line_sizes c ! level) mod length (caches c ! level)
       = unat (a2 div line_sizes c ! level) mod length (caches c ! level)"
  shows "search_cache c' level a1 d = Inr (False, d)"
  using assms(1)
proof (rule update_cache_Inr)
  fix bs
  let ?ls = "line_sizes c ! level"
  let ?lines = "caches c ! level"
  let ?i = "unat (a2 div ?ls) mod length ?lines"
  assume lv: "level < length (line_sizes c)" "?ls \<noteq> 0" "level < length (caches c)" "?lines \<noteq> []"
    and c': "c' = c\<lparr> caches := (caches c)[level := ?lines[?i := \<lparr> valid = True, tag = a2 div ?ls, data = bs \<rparr>]] \<rparr>"
  have i: "?i < length ?lines" using lv(4) by simp
  show ?thesis
    using lv i assms(2,3) by (intro search_cache_no_match) (simp_all add: c')
qed

lemma search_cache_hit:
  assumes "search_cache c level addr d0 = Inr (True, d)"
  shows "valid (caches c ! level ! (unat (addr div line_sizes c ! level) mod length (caches c ! level)))"
    "tag (caches c ! level ! (unat (addr div line_sizes c ! level) mod length (caches c ! level)))
       = addr div line_sizes c ! level"
    "read_bytes (data (caches c ! level ! (unat (addr div line_sizes c ! level) mod length (caches c ! level))))
       (addr mod line_sizes c ! level) [0, 1, 2, 3] 0 = Inr d"
  using assms unfolding search_cache_def Let_def
  by (auto simp: vec_at_def index_unat split: if_splits sum.splits)

lemma struct_inv_update:
  assumes "struct_inv c" "update_cache c level addr v = Inr c'"
  shows "struct_inv c'"
  using assms(2)
proof (rule update_cache_Inr)
  fix bs
  let ?ls = "line_sizes c ! level"
  let ?lines = "caches c ! level"
  let ?i = "unat (addr div ?ls) mod length ?lines"
  assume lv: "level < length (caches c)" and ne: "?lines \<noteq> []"
    and w: "write_bytes (data (?lines ! ?i)) (addr mod ?ls) [3, 2, 1, 0] v = Inr bs"
    and c': "c' = c\<lparr> caches := (caches c)[level := ?lines[?i := \<lparr> valid = True, tag = addr div ?ls, data = bs \<rparr>]] \<rparr>"
  have i: "?i < length ?lines" using ne by simp
  have lvl: "level < unat (levels c)" using lv assms(1) by (simp add: struct_inv_def)
  have "length bs = length (data (?lines ! ?i))" using w by (rule write_bytes_length)
  also have "\<dots> = unat ?ls"
    using assms(1) lvl i by (simp add: struct_inv_def)
  finally have bs: "length bs = unat ?ls" .
  show ?thesis
    unfolding struct_inv_def
  proof (intro conjI ballI)
    fix l assume l: "l \<in> {0..<unat (levels c')}"
    show "length (caches c' ! l) = unat (cache_sizes c' ! l div line_sizes c' ! l)"
      using assms(1) l lv by (cases "l = level") (simp_all add: c' struct_inv_def)
    fix ln assume ln: "ln \<in> set (caches c' ! l)"
    show "length (data ln) = unat (line_sizes c' ! l)"
    proof (cases "l = level")
      case True
      then have "ln \<in> insert \<lparr> valid = True, tag = addr div ?ls, data = bs \<rparr> (set ?lines)"
        using ln lv set_update_subset_insert [of ?lines ?i] by (auto simp: c')
      then show ?thesis using assms(1) lvl bs True by (auto simp: c' struct_inv_def)
    next
      case False
      then show ?thesis using assms(1) l ln by (simp add: c' struct_inv_def)
    qed
  qed (use assms(1) in \<open>simp_all add: c' struct_inv_def\<close>)
qed

lemma config_ok_update:
  assumes "config_ok c" "update_cache c level addr v = Inr c'"
  shows "config_ok c'"
proof -
  have s: "struct_inv c'" using assms by (auto simp: config_ok_def intro: struct_inv_update)
  have cfg: "line_sizes c' = line_sizes c" "latencies c' = latencies c" "levels c' = levels c"
    using assms(2) by (rule update_cache_config)+
  have "caches c' ! l \<noteq> []" if "l < unat (levels c)" for l
  proof -
    have "length (caches c' ! l) = length (caches c ! l)"
      using assms(1) s that by (simp add: config_ok_def struct_inv_def update_cache_config [OF assms(2)])
    then show ?thesis using assms(1) that by (auto simp: config_ok_def)
  qed
  then show ?thesis using assms(1) s cfg by (simp add: config_ok_def)
qed

lemma access_fits_update:
  "access_fits c a \<Longrightarrow> update_cache c level addr v = Inr c' \<Longrightarrow> access_fits c' a"
  by (simp add: access_fits_def update_cache_config)

lemma update_cache_ok:
  assumes "config_ok c" "level < unat (levels c)"
    "unat (addr mod line_sizes c ! level) + 4 \<le> unat (line_sizes c ! level)"
  shows "\<exists>c'. update_cache c level addr v = Inr c'"
proof -
  let ?ls = "line_sizes c ! level"
  let ?lines = "caches c ! level"
  let ?i = "unat (addr div ?ls) mod length ?lines"
  have ne: "?lines \<noteq> []" "?ls \<noteq> 0" and len: "level < length (line_sizes c)" "level < length (caches c)"
    using assms(1,2) by (simp_all add: config_ok_def struct_inv_def)
  have i: "?i < length ?lines" using ne by simp
  have d: "length (data (?lines ! ?i)) = unat ?ls"
    using assms(1,2) i by (simp add: config_ok_def struct_inv_def)
  have "unat ?ls < 2 ^ 32" using unsigned_less [of ?ls] by simp
  then obtain bs where "write_bytes (data (?lines ! ?i)) (addr mod ?ls) [3, 2, 1, 0] v = Inr bs"
    using write_bytes_fits [of "addr mod ?ls" "data (?lines ! ?i)" v] assms(3) d by auto
  then show ?thesis
    unfolding update_cache_def vec_at_def Let_def using ne len i
    by (simp add: index_unat)
qed

lemma search_cache_ok:
  assumes "config_ok c" "level < unat (levels c)"
    "unat (addr mod line_sizes c ! level) + 4 \<le> unat (line_sizes c ! level)"
  shows "\<exists>r. search_cache c level addr d = Inr r"
proof -
  let ?ls = "line_sizes c ! level"
  let ?lines = "caches c ! level"
  let ?i = "unat (addr div ?ls) mod length ?lines"
  have ne: "?lines \<noteq> []" "?ls \<noteq> 0" and len: "level < length (line_sizes c)" "level < length (caches c)"
    using assms(1,2) by (simp_all add: config_ok_def struct_inv_def)
  have i: "?i < length ?lines" using ne by simp
  have dl: "length (data (?lines ! ?i)) = unat ?ls"
    using assms(1,2) i by (simp add: config_ok_def struct_inv_def)
  have "unat ?ls < 2 ^ 32" using unsigned_less [of ?ls] by simp
  then obtain d' where "read_bytes (data (?lines ! ?i)) (addr mod ?ls) [0, 1, 2, 3] 0 = Inr d'"
    using read_bytes_fits [of "addr mod ?ls" "data (?lines ! ?i)"] assms(3) dl by auto
  then show ?thesis
    using ne len i
    by (auto simp: search_cache_def Let_def index_unat vec_at_in simp del: read_bytes.simps)
qed

lemma cold_search:
  assumes "config_ok c" "cold c" "l < unat (levels c)"
  shows "search_cache c l a d = Inr (False, d)"
proof -
  let ?lines = "caches c ! l"
  let ?i = "unat (a div line_sizes c ! l) mod length ?lines"
  have len: "l < length (line_sizes c)" "l < length (caches c)"
    and ne: "line_sizes c ! l \<noteq> 0" "?lines \<noteq> []"
    using assms(1,3) by (simp_all add: config_ok_def struct_inv_def)
  have "?lines ! ?i \<in> set ?lines" using ne by simp
  moreover have "?lines \<in> set (caches c)" using len by simp
  ultimately have "\<not> valid (?lines ! ?i)" using assms(2) unfolding cold_def by blast
  then show ?thesis using len ne by (intro search_cache_no_match) simp_all
qed

section \<open>All levels\<close>

text \<open>
  The two loops over the levels.
\<close>

lemma update_levels_config:
  "update_levels c ls a v = Inr c' \<Longrightarrow>
     line_sizes c' = line_sizes c \<and> cache_sizes c' = cache_sizes c \<and>
     latencies c' = latencies c \<and> levels c' = levels c"
  by (induction ls arbitrary: c) (auto split: sum.splits simp: update_cache_config)

lemma struct_inv_update_levels:
  "struct_inv c \<Longrightarrow> update_levels c ls a v = Inr c' \<Longrightarrow> struct_inv c'"
  by (induction ls arbitrary: c) (auto split: sum.splits intro: struct_inv_update)

lemma config_ok_update_levels:
  "config_ok c \<Longrightarrow> update_levels c ls a v = Inr c' \<Longrightarrow> config_ok c'"
  by (induction ls arbitrary: c) (auto split: sum.splits intro: config_ok_update)

lemma update_levels_ok:
  "config_ok c \<Longrightarrow> access_fits c a \<Longrightarrow> set ls \<subseteq> {0..<unat (levels c)} \<Longrightarrow>
     \<exists>c'. update_levels c ls a v = Inr c'"
proof (induction ls arbitrary: c)
  case Nil
  then show ?case by simp
next
  case (Cons l ls)
  from Cons.prems have l: "l < unat (levels c)" by simp
  then have "unat (a mod line_sizes c ! l) + 4 \<le> unat (line_sizes c ! l)"
    using Cons.prems(2) by (simp add: access_fits_def)
  with Cons.prems(1) l obtain c1 where c1: "update_cache c l a v = Inr c1"
    using update_cache_ok by blast
  have "config_ok c1" "access_fits c1 a" "levels c1 = levels c"
    using Cons.prems(1,2) c1
    by (auto intro: config_ok_update access_fits_update simp: update_cache_config)
  then obtain c' where "update_levels c1 ls a v = Inr c'"
    using Cons.IH [of c1] Cons.prems(3) by auto
  then show ?case using c1 by simp
qed

lemma update_levels_other:
  "update_levels c ls a v = Inr c' \<Longrightarrow> l \<notin> set ls \<Longrightarrow>
     search_cache c' l b d = search_cache c l b d"
  by (induction ls arbitrary: c) (auto split: sum.splits simp: search_other_level)

lemma update_levels_installed:
  "update_levels c ls a v = Inr c' \<Longrightarrow> distinct ls \<Longrightarrow> l \<in> set ls \<Longrightarrow>
     search_cache c' l a d = Inr (True, v)"
proof (induction ls arbitrary: c)
  case Nil
  then show ?case by simp
next
  case (Cons x ls)
  from Cons.prems(1) obtain c1 where c1: "update_cache c x a v = Inr c1"
    and rest: "update_levels c1 ls a v = Inr c'"
    by (auto split: sum.splits)
  show ?case
  proof (cases "l = x")
    case True
    then have "l \<notin> set ls" using Cons.prems(2) by simp
    with rest have "search_cache c' l a d = search_cache c1 l a d"
      by (rule update_levels_other)
    then show ?thesis using c1 True by (simp add: search_after_update)
  next
    case False
    then show ?thesis using Cons.IH [OF rest] Cons.prems(2,3) by simp
  qed
qed

lemma installed_everywhere:
  assumes "update_levels c [0..<unat (levels c)] a v = Inr c'"
  shows "\<forall>l \<in> {0..<unat (levels c)}. search_cache c' l a 0 = Inr (True, v)"
  using update_levels_installed [OF assms] by simp

lemma update_all_levels:
  assumes "config_ok c" "access_fits c a"
  obtains c' where "update_levels c [0..<unat (levels c)] a v = Inr c'"
    "config_ok c'" "latencies c' = latencies c" "levels c' = levels c" "line_sizes c' = line_sizes c"
    "\<forall>l \<in> {0..<unat (levels c)}. search_cache c' l a 0 = Inr (True, v)"
proof -
  obtain c' where u: "update_levels c [0..<unat (levels c)] a v = Inr c'"
    using update_levels_ok [OF assms, of "[0..<unat (levels c)]" v] by auto
  have "\<forall>l \<in> {0..<unat (levels c)}. search_cache c' l a 0 = Inr (True, v)"
    using update_levels_installed [OF u] by simp
  moreover have "config_ok c'" using assms(1) u by (rule config_ok_update_levels)
  ultimately show ?thesis using that u update_levels_config [OF u] by blast
qed

lemma search_levels_all_miss:
  "(\<forall>l \<in> set ls. search_cache c l a d = Inr (False, d)) \<Longrightarrow>
     search_levels c ls a d = Inr (None, d)"
  by (induction ls) auto

lemma search_levels_first_hit:
  "(\<forall>l \<in> set pre. search_cache c l a d = Inr (False, d)) \<Longrightarrow>
   search_cache c L a d = Inr (True, v) \<Longrightarrow>
     search_levels c (pre @ L # post) a d = Inr (Some L, v)"
  by (induction pre) auto

lemma search_levels_ok:
  "config_ok c \<Longrightarrow> access_fits c a \<Longrightarrow> set ls \<subseteq> {0..<unat (levels c)} \<Longrightarrow>
     \<exists>r. search_levels c ls a d = Inr r"
proof (induction ls arbitrary: d)
  case Nil
  then show ?case by simp
next
  case (Cons l ls)
  from Cons.prems have "l < unat (levels c)" by simp
  moreover from this have "unat (a mod line_sizes c ! l) + 4 \<le> unat (line_sizes c ! l)"
    using Cons.prems(2) by (simp add: access_fits_def)
  ultimately obtain h d' where "search_cache c l a d = Inr (h, d')"
    using search_cache_ok [OF Cons.prems(1), of l a d] by auto
  moreover obtain r where "search_levels c ls a d' = Inr r"
    using Cons.IH [of d'] Cons.prems by auto
  ultimately show ?case by simp
qed

lemma search_levels_Some:
  "search_levels c ls a d = Inr (Some L, v) \<Longrightarrow> L \<in> set ls"
proof (induction ls arbitrary: d)
  case Nil
  then show ?case by simp
next
  case (Cons l ls)
  show ?case
  proof (cases "search_cache c l a d")
    case (Inl f)
    then show ?thesis using Cons.prems by simp
  next
    case (Inr r)
    obtain h d' where r: "r = (h, d')" by (cases r)
    show ?thesis
    proof (cases h)
      case True
      then show ?thesis using Cons.prems Inr r by simp
    next
      case False
      then have "search_levels c ls a d' = Inr (Some L, v)" using Cons.prems Inr r by simp
      then show ?thesis using Cons.IH by simp
    qed
  qed
qed

lemma levels_split:
  "L < n \<Longrightarrow> [0..<n] = [0..<L] @ L # [Suc L..<n]"
  by (metis le_add1 less_imp_le_nat plus_nat.add_0 upt_add_eq_append upt_conv_Cons le_add_diff_inverse)

section \<open>The constructed cache\<close>

text \<open>
  The members as the constructor leaves them, and the sample state.
\<close>

lemma Cache_init_fields:
  "caches Cache_init =
     [replicate 16 \<lparr> valid = False, tag = 0, data = replicate 64 0 \<rparr>,
      replicate 32 \<lparr> valid = False, tag = 0, data = replicate 64 0 \<rparr>]"
  "cache_sizes Cache_init = [1024, 2048]" "line_sizes Cache_init = [64, 64]"
  "latencies Cache_init = [1, 3]" "levels Cache_init = 2"
proof -
  have "[0..<2] = [0, Suc 0]" by (simp add: upt_rec)
  then show "caches Cache_init =
     [replicate 16 \<lparr> valid = False, tag = 0, data = replicate 64 0 \<rparr>,
      replicate 32 \<lparr> valid = False, tag = 0, data = replicate 64 0 \<rparr>]"
    by (simp add: Cache_init_def Let_def)
qed (simp_all add: Cache_init_def Let_def)

lemma less_2_cases_nat: "l < (2::nat) \<longleftrightarrow> l = 0 \<or> l = Suc 0"
  by auto

lemma struct_inv_Cache_init: "struct_inv Cache_init"
  by (auto simp: struct_inv_def Cache_init_fields less_2_cases_nat)

lemma config_ok_Cache_init: "config_ok Cache_init"
  by (auto simp: config_ok_def struct_inv_Cache_init Cache_init_fields less_2_cases_nat)

lemma cold_Cache_init: "cold Cache_init"
  by (auto simp: cold_def Cache_init_fields)

lemma access_fits_Cache_init:
  "unat (a mod 64) + 4 \<le> 64 \<Longrightarrow> access_fits Cache_init a"
  by (auto simp: access_fits_def Cache_init_fields less_2_cases_nat)

lemma conflict_sample_search:
  "search_cache conflict_sample 0 0 0 = Inr (False, 0)"
  "search_cache conflict_sample 1 0 0 = Inr (True, 0x12345678)"
  by (simp_all add: search_cache_def conflict_sample_def Cache_init_fields vec_at_def Let_def)

section \<open>One pass of the thread\<close>

text \<open>
  The paths through the loop body: read hit, read miss with fill, write.
\<close>

lemma read_hit_pass:
  assumes "read_sig s" "L < unat (levels c)" "L < length (latencies c)"
    "\<forall>l \<in> {0..<L}. search_cache c l (address s) 0 = Inr (False, 0)"
    "search_cache c L (address s) 0 = Inr (True, v)"
  shows "process_cache c s =
           Inr \<lparr> cache_after = c, sigs_after = s\<lparr> r_data := v, ready := True \<rparr>,
                 waited = unat (latencies c ! L) \<rparr>"
proof -
  have "search_levels c ([0..<L] @ L # [Suc L..<unat (levels c)]) (address s) 0 = Inr (Some L, v)"
    using assms(4,5) by (intro search_levels_first_hit) simp_all
  then have "search_levels c [0..<unat (levels c)] (address s) 0 = Inr (Some L, v)"
    using levels_split [OF assms(2)] by simp
  then show ?thesis using assms(1,3) by (simp add: process_cache_def vec_at_def)
qed

lemma read_miss_pass:
  assumes "read_sig s"
    "\<forall>l \<in> {0..<unat (levels c)}. search_cache c l (address s) 0 = Inr (False, 0)"
    "update_levels c [0..<unat (levels c)] (address s) 0xDEADBEEF = Inr c'"
  shows "process_cache c s =
           Inr \<lparr> cache_after = c', sigs_after = s\<lparr> r_data := 0xDEADBEEF, ready := True \<rparr>,
                 waited = 0 \<rparr>"
proof -
  have "search_levels c [0..<unat (levels c)] (address s) 0 = Inr (None, 0)"
    using assms(2) by (intro search_levels_all_miss) simp
  then show ?thesis using assms(1,3) by (simp add: process_cache_def)
qed

lemma read_miss_pass_Inr:
  assumes "read_sig s"
    "\<forall>l \<in> {0..<unat (levels c)}. search_cache c l (address s) 0 = Inr (False, 0)"
    "process_cache c s = Inr t"
  shows "update_levels c [0..<unat (levels c)] (address s) 0xDEADBEEF = Inr (cache_after t)"
    "sigs_after t = s\<lparr> r_data := 0xDEADBEEF, ready := True \<rparr>" "waited t = 0"
proof -
  have "search_levels c [0..<unat (levels c)] (address s) 0 = Inr (None, 0)"
    using assms(2) by (intro search_levels_all_miss) simp
  then have "update_levels c [0..<unat (levels c)] (address s) 0xDEADBEEF = Inr (cache_after t) \<and>
      sigs_after t = s\<lparr> r_data := 0xDEADBEEF, ready := True \<rparr> \<and> waited t = 0"
    using assms(1,3) by (auto simp: process_cache_def Let_def split: sum.splits)
  then show "update_levels c [0..<unat (levels c)] (address s) 0xDEADBEEF = Inr (cache_after t)"
    "sigs_after t = s\<lparr> r_data := 0xDEADBEEF, ready := True \<rparr>" "waited t = 0"
    by simp_all
qed

lemma write_pass:
  assumes "\<not> read_sig s" "write_sig s"
    "update_levels c [0..<unat (levels c)] (address s) (w_data s) = Inr c'"
  shows "process_cache c s =
           Inr \<lparr> cache_after = c', sigs_after = s\<lparr> ready := True \<rparr>, waited = 0 \<rparr>"
  using assms by (simp add: process_cache_def)

lemma write_pass_Inr:
  assumes "\<not> read_sig s" "write_sig s" "process_cache c s = Inr t"
  shows "update_levels c [0..<unat (levels c)] (address s) (w_data s) = Inr (cache_after t)"
    "sigs_after t = s\<lparr> ready := True \<rparr>" "waited t = 0"
  using assms by (auto simp: process_cache_def Let_def split: sum.splits)

lemma process_cache_ok:
  assumes "config_ok c" "access_fits c (address s)"
  shows "\<exists>t. process_cache c s = Inr t"
proof -
  let ?all = "[0..<unat (levels c)]"
  obtain c1 where u1: "update_levels c ?all (address s) 0xDEADBEEF = Inr c1"
    using update_levels_ok [OF assms, of ?all] by auto
  obtain c2 where u2: "update_levels c ?all (address s) (w_data s) = Inr c2"
    using update_levels_ok [OF assms, of ?all] by auto
  obtain hit d where sl: "search_levels c ?all (address s) 0 = Inr (hit, d)"
    using search_levels_ok [OF assms, of ?all 0] by auto
  show ?thesis
  proof (cases hit)
    case None
    then show ?thesis using sl u1 u2 by (simp add: process_cache_def Let_def)
  next
    case (Some L)
    then have "L \<in> set ?all" using sl search_levels_Some by blast
    then have "L < length (latencies c)" using assms(1) by (simp add: config_ok_def)
    then show ?thesis using Some sl u1 u2 by (simp add: process_cache_def Let_def vec_at_in)
  qed
qed

lemma process_cache_cases:
  assumes "process_cache c s = Inr t"
  shows "cache_after t = c \<or> (\<exists>v. update_levels c [0..<unat (levels c)] (address s) v = Inr (cache_after t))"
  using assms
  by (auto simp: process_cache_def Let_def split: if_splits sum.splits option.splits)

lemma struct_inv_process:
  assumes "struct_inv c" "process_cache c s = Inr t"
  shows "struct_inv (cache_after t)"
  using process_cache_cases [OF assms(2)] assms(1)
  by (auto intro: struct_inv_update_levels)

lemma config_ok_process:
  assumes "config_ok c" "process_cache c s = Inr t"
  shows "config_ok (cache_after t)"
  using process_cache_cases [OF assms(2)] assms(1)
  by (auto intro: config_ok_update_levels)

lemma process_cache_config:
  assumes "process_cache c s = Inr t"
  shows "cache_sizes (cache_after t) = cache_sizes c \<and> line_sizes (cache_after t) = line_sizes c \<and>
         levels (cache_after t) = levels c"
  using process_cache_cases [OF assms]
  by (auto dest: update_levels_config)

lemma conflict_sample_reached:
  "then_pass (process_cache Cache_init (write_request 0 0x12345678)) (write_request 0x400 0x55)
     = Inr \<lparr> cache_after = conflict_sample, sigs_after = (write_request 0x400 0x55)\<lparr> ready := True \<rparr>, waited = 0 \<rparr>"
  by (simp add: then_pass_def process_cache_def write_request_def conflict_sample_def
      Cache_init_fields update_cache_def vec_at_def Let_def upt_rec list_update_overwrite)

section \<open>Properties of the read path\<close>

text \<open>
  C7. A read that misses at the levels before \<open>L\<close> and hits at level \<open>L\<close> puts on \<open>r_data\<close>
  the word made of the four bytes at the offset in the matching line of level \<open>L\<close>, most
  significant byte first, waits \<open>latencies[L]\<close> and raises \<open>ready\<close>. The members after the
  pass are the members before it, so no level is changed.
\<close>

theorem read_hit_first_level:
  assumes "read_sig s" "L < unat (levels c)" "L < length (latencies c)"
    and "\<forall>l \<in> {0..<L}. search_cache c l (address s) 0 = Inr (False, 0)"
    and "search_cache c L (address s) 0 = Inr (True, d)"
  shows "process_cache c s =
           Inr \<lparr> cache_after = c, sigs_after = s\<lparr> r_data := d, ready := True \<rparr>,
                 waited = unat (latencies c ! L) \<rparr> \<and>
         (let ls = line_sizes c ! L;
              lines = caches c ! L;
              line = lines ! (unat (address s div ls) mod length lines);
              off = address s mod ls
          in valid line \<and> tag line = address s div ls \<and>
             d = ((push_bit 24 (ucast (data line ! unat off)) OR
                   push_bit 16 (ucast (data line ! unat (off + 1)))) OR
                   push_bit 8 (ucast (data line ! unat (off + 2)))) OR
                   ucast (data line ! unat (off + 3)))"
proof -
  note h = search_cache_hit [OF assms(5)]
  have "process_cache c s =
           Inr \<lparr> cache_after = c, sigs_after = s\<lparr> r_data := d, ready := True \<rparr>,
                 waited = unat (latencies c ! L) \<rparr>"
    using assms by (rule read_hit_pass)
  then show ?thesis
    using h(1,2) read_bytes_value [OF h(3)] by (simp add: Let_def)
qed

text \<open>
  The sample state has address 0 evicted from level 0 and resident at level 1: the read
  misses at level 0, hits at level 1 and waits 3.
\<close>

theorem read_hit_first_level_witness:
  "read_sig (read_request 0) \<and> 1 < unat (levels conflict_sample) \<and>
   1 < length (latencies conflict_sample) \<and>
   search_cache conflict_sample 0 (address (read_request 0)) 0 = Inr (False, 0) \<and>
   search_cache conflict_sample 1 (address (read_request 0)) 0 = Inr (True, 0x12345678) \<and>
   process_cache conflict_sample (read_request 0) =
     Inr \<lparr> cache_after = conflict_sample,
           sigs_after = (read_request 0)\<lparr> r_data := 0x12345678, ready := True \<rparr>,
           waited = 3 \<rparr>"
proof -
  have a: "address (read_request 0) = 0" "read_sig (read_request 0)" by (simp_all add: read_request_def)
  have l: "1 < unat (levels conflict_sample)" "1 < length (latencies conflict_sample)"
    "unat (latencies conflict_sample ! 1) = 3"
    by (simp_all add: conflict_sample_def Cache_init_fields)
  have m: "\<forall>l \<in> {0..<1}. search_cache conflict_sample l (address (read_request 0)) 0 = Inr (False, 0)"
    by (simp add: a conflict_sample_search)
  have h: "search_cache conflict_sample 1 (address (read_request 0)) 0 = Inr (True, 0x12345678)"
    using conflict_sample_search(2) by (simp add: a)
  show ?thesis
    using read_hit_first_level [OF a(2) l(1) l(2) m h] a(2) l m h by simp
qed

text \<open>
  C1, as the code has it. A read that misses at every level puts the constant
  \<open>0xDEADBEEF\<close> on \<open>r_data\<close>, raises \<open>ready\<close> and installs that constant at every level,
  whenever the pass returns; and it returns on a well-formed cache when the four bytes lie
  inside one line at every level. No memory is read: the constant stands in for the fetched
  word.
\<close>

theorem full_miss_placeholder_installed:
  assumes "read_sig s" "address s = a"
    and "\<forall>l \<in> {0..<unat (levels c)}. search_cache c l a 0 = Inr (False, 0)"
  shows "(process_cache c s = Inr t \<longrightarrow>
            r_data (sigs_after t) = 0xDEADBEEF \<and> ready (sigs_after t) \<and>
            (\<forall>l \<in> {0..<unat (levels c)}.
               search_cache (cache_after t) l a 0 = Inr (True, 0xDEADBEEF))) \<and>
         (config_ok c \<and> access_fits c a \<longrightarrow> (\<exists>t'. process_cache c s = Inr t'))"
proof (intro conjI impI)
  assume p: "process_cache c s = Inr t"
  note m = assms(3) [unfolded assms(2) [symmetric]]
  note r = read_miss_pass_Inr [OF assms(1) m p]
  show "r_data (sigs_after t) = 0xDEADBEEF" "ready (sigs_after t)" using r(2) by simp_all
  show "\<forall>l \<in> {0..<unat (levels c)}. search_cache (cache_after t) l a 0 = Inr (True, 0xDEADBEEF)"
    using installed_everywhere [OF r(1)] assms(2) by simp
next
  assume "config_ok c \<and> access_fits c a"
  then show "\<exists>t'. process_cache c s = Inr t'" using process_cache_ok assms(2) by blast
qed

theorem full_miss_placeholder_installed_witness:
  "read_sig (read_request 0x1000) \<and> address (read_request 0x1000) = 0x1000 \<and>
   search_cache Cache_init 0 0x1000 0 = Inr (False, 0) \<and>
   search_cache Cache_init 1 0x1000 0 = Inr (False, 0) \<and>
   config_ok Cache_init \<and> access_fits Cache_init 0x1000 \<and>
   (\<exists>t. process_cache Cache_init (read_request 0x1000) = Inr t \<and>
      r_data (sigs_after t) = 0xDEADBEEF \<and> ready (sigs_after t) \<and>
      search_cache (cache_after t) 0 0x1000 0 = Inr (True, 0xDEADBEEF) \<and>
      search_cache (cache_after t) 1 0x1000 0 = Inr (True, 0xDEADBEEF))"
proof -
  have f: "access_fits Cache_init 0x1000" by (rule access_fits_Cache_init) simp
  have r: "read_sig (read_request 0x1000)" "address (read_request 0x1000) = 0x1000"
    by (simp_all add: read_request_def)
  have m: "\<forall>l \<in> {0..<unat (levels Cache_init)}. search_cache Cache_init l 0x1000 0 = Inr (False, 0)"
    using cold_search [OF config_ok_Cache_init cold_Cache_init] by simp
  note th = full_miss_placeholder_installed [OF r m]
  obtain t where t: "process_cache Cache_init (read_request 0x1000) = Inr t"
    using th [THEN conjunct2] config_ok_Cache_init f by blast
  have "r_data (sigs_after t) = 0xDEADBEEF \<and> ready (sigs_after t) \<and>
      (\<forall>l \<in> {0..<unat (levels Cache_init)}. search_cache (cache_after t) l 0x1000 0 = Inr (True, 0xDEADBEEF))"
    using th [THEN conjunct1, of t] t by blast
  then show ?thesis using t r m config_ok_Cache_init f by (auto simp: Cache_init_fields)
qed

text \<open>
  C1 as stated fails. Address \<open>0x1000\<close> misses at both levels of the constructed cache; the
  cache answers \<open>0xDEADBEEF\<close>, while a read of the same address issued to the constructed
  memory answers 0.
\<close>

theorem full_miss_value_counterexample:
  "search_levels Cache_init [0..<unat (levels Cache_init)] 0x1000 0 = Inr (None, 0) \<and>
   map_sum id (r_data \<circ> sigs_after) (process_cache Cache_init (read_request 0x1000)) = Inr 0xDEADBEEF \<and>
   map_sum id (r_data \<circ> snd) (process_memory Memory_init (read_request 0x1000)) = Inr 0"
proof -
  have f: "access_fits Cache_init 0x1000" by (rule access_fits_Cache_init) simp
  have m: "\<forall>l \<in> {0..<unat (levels Cache_init)}. search_cache Cache_init l 0x1000 0 = Inr (False, 0)"
    using cold_search [OF config_ok_Cache_init cold_Cache_init] by simp
  obtain c' where u: "update_levels Cache_init [0..<unat (levels Cache_init)] 0x1000 0xDEADBEEF = Inr c'"
    using update_all_levels [OF config_ok_Cache_init f] by metis
  have "process_cache Cache_init (read_request 0x1000) =
          Inr \<lparr> cache_after = c', sigs_after = (read_request 0x1000)\<lparr> r_data := 0xDEADBEEF, ready := True \<rparr>,
                waited = 0 \<rparr>"
    using m u by (intro read_miss_pass) (simp_all add: read_request_def)
  moreover have "search_levels Cache_init [0..<unat (levels Cache_init)] 0x1000 0 = Inr (None, 0)"
    using m by (intro search_levels_all_miss) simp
  moreover have "map_sum id (r_data \<circ> snd) (process_memory Memory_init (read_request 0x1000)) = Inr 0"
    by (simp add: process_memory_def read_request_def Memory_init_def page_size_def page_num_def)
  ultimately show ?thesis by simp
qed

text \<open>
  C6, as the code has it. A read that misses at every level raises \<open>ready\<close> without any
  \<open>wait\<close> for a latency, whenever the pass returns: the time waited is 0. The pass returns
  on a well-formed cache when the four bytes lie inside one line at every level.
\<close>

theorem full_miss_no_wait:
  assumes "read_sig s" "address s = a"
    and "\<forall>l \<in> {0..<unat (levels c)}. search_cache c l a 0 = Inr (False, 0)"
  shows "(process_cache c s = Inr t \<longrightarrow> waited t = 0 \<and> ready (sigs_after t)) \<and>
         (config_ok c \<and> access_fits c a \<longrightarrow> (\<exists>t'. process_cache c s = Inr t'))"
proof (intro conjI impI)
  assume p: "process_cache c s = Inr t"
  note m = assms(3) [unfolded assms(2) [symmetric]]
  note r = read_miss_pass_Inr [OF assms(1) m p]
  show "waited t = 0" "ready (sigs_after t)" using r(2,3) by simp_all
next
  assume "config_ok c \<and> access_fits c a"
  then show "\<exists>t'. process_cache c s = Inr t'" using process_cache_ok assms(2) by blast
qed

theorem full_miss_no_wait_witness:
  "read_sig (read_request 0x1000) \<and> address (read_request 0x1000) = 0x1000 \<and>
   search_cache Cache_init 0 0x1000 0 = Inr (False, 0) \<and>
   search_cache Cache_init 1 0x1000 0 = Inr (False, 0) \<and>
   config_ok Cache_init \<and> access_fits Cache_init 0x1000 \<and>
   (\<exists>t. process_cache Cache_init (read_request 0x1000) = Inr t \<and> waited t = 0 \<and>
      ready (sigs_after t))"
proof -
  have f: "access_fits Cache_init 0x1000" by (rule access_fits_Cache_init) simp
  have r: "read_sig (read_request 0x1000)" "address (read_request 0x1000) = 0x1000"
    by (simp_all add: read_request_def)
  have m: "\<forall>l \<in> {0..<unat (levels Cache_init)}. search_cache Cache_init l 0x1000 0 = Inr (False, 0)"
    using cold_search [OF config_ok_Cache_init cold_Cache_init] by simp
  note th = full_miss_no_wait [OF r m]
  obtain t where t: "process_cache Cache_init (read_request 0x1000) = Inr t"
    using th [THEN conjunct2] config_ok_Cache_init f by blast
  have "waited t = 0 \<and> ready (sigs_after t)"
    using th [THEN conjunct1, of t] t by blast
  then show ?thesis using t r m config_ok_Cache_init f by (auto simp: Cache_init_fields)
qed

text \<open>
  C6 as stated fails. The full miss at \<open>0x1000\<close> on the constructed cache waits 0, while the
  latencies of the two levels already add up to 4.
\<close>

theorem full_miss_latency_counterexample:
  "search_levels Cache_init [0..<unat (levels Cache_init)] 0x1000 0 = Inr (None, 0) \<and>
   map_sum id waited (process_cache Cache_init (read_request 0x1000)) = Inr 0 \<and>
   sum_list (map unat (latencies Cache_init)) = 4"
proof -
  have f: "access_fits Cache_init 0x1000" by (rule access_fits_Cache_init) simp
  have m: "\<forall>l \<in> {0..<unat (levels Cache_init)}. search_cache Cache_init l 0x1000 0 = Inr (False, 0)"
    using cold_search [OF config_ok_Cache_init cold_Cache_init] by simp
  obtain c' where u: "update_levels Cache_init [0..<unat (levels Cache_init)] 0x1000 0xDEADBEEF = Inr c'"
    using update_all_levels [OF config_ok_Cache_init f] by metis
  have "process_cache Cache_init (read_request 0x1000) =
          Inr \<lparr> cache_after = c', sigs_after = (read_request 0x1000)\<lparr> r_data := 0xDEADBEEF, ready := True \<rparr>,
                waited = 0 \<rparr>"
    using m u by (intro read_miss_pass) (simp_all add: read_request_def)
  moreover have "search_levels Cache_init [0..<unat (levels Cache_init)] 0x1000 0 = Inr (None, 0)"
    using m by (intro search_levels_all_miss) simp
  ultimately show ?thesis by (simp add: Cache_init_fields)
qed

text \<open>
  C8. On a well-formed cache with no valid line, a read of \<open>a\<close> is a miss at every level:
  each level is looked up and none hits. Whenever that pass returns, it has waited for
  nothing and filled the levels, and a second read of \<open>a\<close> finds the filled word at level 0,
  puts it on \<open>r_data\<close>, raises \<open>ready\<close> and waits \<open>latencies[0]\<close>, changing no member. The
  first pass returns when the four bytes at \<open>a\<close> lie inside one line at every level.
\<close>

theorem cold_miss_then_hit:
  assumes "config_ok c" "cold c" "0 < unat (levels c)"
    and "read_sig r1" "address r1 = a" "read_sig r2" "address r2 = a"
  shows "(\<forall>l \<in> {0..<unat (levels c)}. search_cache c l a 0 = Inr (False, 0)) \<and>
         search_levels c [0..<unat (levels c)] a 0 = Inr (None, 0) \<and>
         (process_cache c r1 = Inr t1 \<longrightarrow>
            waited t1 = 0 \<and>
            search_cache (cache_after t1) 0 a 0 = Inr (True, r_data (sigs_after t1)) \<and>
            process_cache (cache_after t1) r2 =
              Inr \<lparr> cache_after = cache_after t1,
                    sigs_after = r2\<lparr> r_data := r_data (sigs_after t1), ready := True \<rparr>,
                    waited = unat (latencies c ! 0) \<rparr>) \<and>
         (access_fits c a \<longrightarrow> (\<exists>t. process_cache c r1 = Inr t))"
proof (intro conjI impI)
  show m: "\<forall>l \<in> {0..<unat (levels c)}. search_cache c l a 0 = Inr (False, 0)"
    using cold_search [OF assms(1,2)] by simp
  then show "search_levels c [0..<unat (levels c)] a 0 = Inr (None, 0)"
    by (intro search_levels_all_miss) simp
  {
    assume p: "process_cache c r1 = Inr t1"
    note r = read_miss_pass_Inr [OF assms(4) m [unfolded assms(5) [symmetric]] p]
    let ?c' = "cache_after t1"
    have cfg: "latencies ?c' = latencies c" "levels ?c' = levels c"
      using update_levels_config [OF r(1)] by simp_all
    have hit0: "search_cache ?c' 0 a 0 = Inr (True, 0xDEADBEEF)"
      using installed_everywhere [OF r(1)] assms(3,5) by simp
    have lat: "0 < length (latencies ?c')" using cfg assms(1,3) by (simp add: config_ok_def)
    have p2: "process_cache ?c' r2 =
          Inr \<lparr> cache_after = ?c', sigs_after = r2\<lparr> r_data := 0xDEADBEEF, ready := True \<rparr>,
                waited = unat (latencies ?c' ! 0) \<rparr>"
      using assms(6) assms(3) lat hit0 unfolding assms(7) [symmetric] cfg(2) [symmetric]
      by (intro read_hit_pass) simp_all
    show "waited t1 = 0" by (rule r(3))
    show "search_cache ?c' 0 a 0 = Inr (True, r_data (sigs_after t1))"
      using hit0 r(2) by simp
    show "process_cache ?c' r2 =
              Inr \<lparr> cache_after = ?c',
                    sigs_after = r2\<lparr> r_data := r_data (sigs_after t1), ready := True \<rparr>,
                    waited = unat (latencies c ! 0) \<rparr>"
      using p2 r(2) cfg(1) by simp
  }
  assume "access_fits c a"
  then show "\<exists>t. process_cache c r1 = Inr t"
    using process_cache_ok [OF assms(1), of r1] assms(5) by simp
qed

theorem cold_miss_then_hit_witness:
  "config_ok Cache_init \<and> cold Cache_init \<and> 0 < unat (levels Cache_init) \<and>
   access_fits Cache_init 0x1000 \<and>
   search_levels Cache_init [0..<unat (levels Cache_init)] 0x1000 0 = Inr (None, 0) \<and>
   (\<exists>t1. process_cache Cache_init (read_request 0x1000) = Inr t1 \<and> waited t1 = 0 \<and>
      search_cache (cache_after t1) 0 0x1000 0 = Inr (True, r_data (sigs_after t1)) \<and>
      process_cache (cache_after t1) (read_request 0x1000) =
        Inr \<lparr> cache_after = cache_after t1,
              sigs_after = (read_request 0x1000)\<lparr> r_data := r_data (sigs_after t1), ready := True \<rparr>,
              waited = 1 \<rparr>)"
proof -
  have f: "access_fits Cache_init 0x1000" by (rule access_fits_Cache_init) simp
  have l: "0 < unat (levels Cache_init)" by (simp add: Cache_init_fields)
  have r: "read_sig (read_request 0x1000)" "address (read_request 0x1000) = 0x1000"
    by (simp_all add: read_request_def)
  have lat: "unat (latencies Cache_init ! 0) = 1" by (simp add: Cache_init_fields)
  note th = cold_miss_then_hit [OF config_ok_Cache_init cold_Cache_init l r r]
  obtain t1 where t1: "process_cache Cache_init (read_request 0x1000) = Inr t1"
    using th [THEN conjunct2, THEN conjunct2, THEN conjunct2] f by blast
  show ?thesis
    using th [of t1] t1 config_ok_Cache_init cold_Cache_init l f lat by auto
qed

section \<open>Properties of the write path\<close>

text \<open>
  C5. A write of \<open>v\<close> to \<open>a\<close> followed by a read of \<open>a\<close>, on a cache with at least one level:
  whenever the write pass returns, level 0 holds \<open>v\<close> at \<open>a\<close> and the read pass puts \<open>v\<close> on
  \<open>r_data\<close>, raises \<open>ready\<close>, waits \<open>latencies[0]\<close> and changes no member. The write pass
  returns on a well-formed cache when the four bytes at \<open>a\<close> lie inside one line at every
  level, that is, when the access does not cross a line boundary.
\<close>

theorem write_read_roundtrip:
  assumes "\<not> read_sig w" "write_sig w" "address w = a" "w_data w = v"
    and "read_sig r" "address r = a"
    and "0 < unat (levels c)" "0 < length (latencies c)"
  shows "(process_cache c w = Inr t1 \<longrightarrow>
            search_cache (cache_after t1) 0 a 0 = Inr (True, v) \<and>
            process_cache (cache_after t1) r =
              Inr \<lparr> cache_after = cache_after t1,
                    sigs_after = r\<lparr> r_data := v, ready := True \<rparr>,
                    waited = unat (latencies c ! 0) \<rparr>) \<and>
         (config_ok c \<and> access_fits c a \<longrightarrow> (\<exists>t. process_cache c w = Inr t))"
proof (intro conjI impI)
  {
    assume p: "process_cache c w = Inr t1"
    note u = write_pass_Inr [OF assms(1,2) p]
    let ?c' = "cache_after t1"
    have cfg: "latencies ?c' = latencies c" "levels ?c' = levels c"
      using update_levels_config [OF u(1)] by simp_all
    show hit0: "search_cache ?c' 0 a 0 = Inr (True, v)"
      using installed_everywhere [OF u(1)] assms(3,4,7) by simp
    have "process_cache ?c' r =
          Inr \<lparr> cache_after = ?c', sigs_after = r\<lparr> r_data := v, ready := True \<rparr>,
                waited = unat (latencies ?c' ! 0) \<rparr>"
      using assms(5,7,8) hit0 cfg unfolding assms(6) [symmetric]
      by (intro read_hit_pass) simp_all
    then show "process_cache ?c' r =
              Inr \<lparr> cache_after = ?c', sigs_after = r\<lparr> r_data := v, ready := True \<rparr>,
                    waited = unat (latencies c ! 0) \<rparr>"
      using cfg(1) by simp
  }
  assume "config_ok c \<and> access_fits c a"
  then show "\<exists>t. process_cache c w = Inr t" using process_cache_ok assms(3) by blast
qed

theorem write_read_roundtrip_witness:
  "\<not> read_sig (write_request 0 0x12345678) \<and> write_sig (write_request 0 0x12345678) \<and>
   address (write_request 0 0x12345678) = 0 \<and> w_data (write_request 0 0x12345678) = 0x12345678 \<and>
   read_sig (read_request 0) \<and> address (read_request 0) = 0 \<and>
   0 < unat (levels Cache_init) \<and> 0 < length (latencies Cache_init) \<and>
   config_ok Cache_init \<and> access_fits Cache_init 0 \<and>
   (\<exists>t1. process_cache Cache_init (write_request 0 0x12345678) = Inr t1 \<and>
      search_cache (cache_after t1) 0 0 0 = Inr (True, 0x12345678) \<and>
      process_cache (cache_after t1) (read_request 0) =
        Inr \<lparr> cache_after = cache_after t1,
              sigs_after = (read_request 0)\<lparr> r_data := 0x12345678, ready := True \<rparr>,
              waited = 1 \<rparr>)"
proof -
  have f: "access_fits Cache_init 0" by (rule access_fits_Cache_init) simp
  have l: "0 < unat (levels Cache_init)" "0 < length (latencies Cache_init)"
    "unat (latencies Cache_init ! 0) = 1"
    by (simp_all add: Cache_init_fields)
  have w: "\<not> read_sig (write_request 0 0x12345678)" "write_sig (write_request 0 0x12345678)"
    "address (write_request 0 0x12345678) = 0" "w_data (write_request 0 0x12345678) = 0x12345678"
    by (simp_all add: write_request_def)
  have r: "read_sig (read_request 0)" "address (read_request 0) = 0"
    by (simp_all add: read_request_def)
  note th = write_read_roundtrip [OF w r l(1,2)]
  obtain t1 where t1: "process_cache Cache_init (write_request 0 0x12345678) = Inr t1"
    using th [THEN conjunct2] config_ok_Cache_init f by blast
  show ?thesis
    using th [THEN conjunct1, of t1] t1 w r l config_ok_Cache_init f by auto
qed

text \<open>
  C3, as the code has it. A write (\<open>read\<close> low, \<open>write\<close> high) installs \<open>w_data\<close> at
  every level, raises \<open>ready\<close> and waits for nothing, whenever the pass returns; and it
  returns on a well-formed cache when the four bytes lie inside one line at every level. The
  pass works on the cache's own arrays only; \<open>Cache\<close> has no port towards a memory.
\<close>

theorem write_installs_every_level:
  assumes "\<not> read_sig s" "write_sig s" "address s = a"
  shows "(process_cache c s = Inr t \<longrightarrow>
            (\<forall>l \<in> {0..<unat (levels c)}. search_cache (cache_after t) l a 0 = Inr (True, w_data s)) \<and>
            sigs_after t = s\<lparr> ready := True \<rparr> \<and> waited t = 0) \<and>
         (config_ok c \<and> access_fits c a \<longrightarrow> (\<exists>t'. process_cache c s = Inr t'))"
proof (intro conjI impI)
  assume p: "process_cache c s = Inr t"
  note w = write_pass_Inr [OF assms(1,2) p]
  show "\<forall>l \<in> {0..<unat (levels c)}. search_cache (cache_after t) l a 0 = Inr (True, w_data s)"
    using installed_everywhere [OF w(1)] assms(3) by simp
  show "sigs_after t = s\<lparr> ready := True \<rparr>" "waited t = 0" using w(2,3) by simp_all
next
  assume "config_ok c \<and> access_fits c a"
  then show "\<exists>t'. process_cache c s = Inr t'" using process_cache_ok assms(3) by blast
qed

theorem write_installs_every_level_witness:
  "\<not> read_sig (write_request 0 0x12345678) \<and> write_sig (write_request 0 0x12345678) \<and>
   address (write_request 0 0x12345678) = 0 \<and> config_ok Cache_init \<and> access_fits Cache_init 0 \<and>
   (\<exists>t. process_cache Cache_init (write_request 0 0x12345678) = Inr t \<and>
      search_cache (cache_after t) 0 0 0 = Inr (True, 0x12345678) \<and>
      search_cache (cache_after t) 1 0 0 = Inr (True, 0x12345678) \<and>
      sigs_after t = (write_request 0 0x12345678)\<lparr> ready := True \<rparr> \<and> waited t = 0)"
proof -
  have f: "access_fits Cache_init 0" by (rule access_fits_Cache_init) simp
  have w: "\<not> read_sig (write_request 0 0x12345678)" "write_sig (write_request 0 0x12345678)"
    "address (write_request 0 0x12345678) = 0" "w_data (write_request 0 0x12345678) = 0x12345678"
    by (simp_all add: write_request_def)
  note th = write_installs_every_level [OF w(1-3), where c = Cache_init]
  obtain t where t: "process_cache Cache_init (write_request 0 0x12345678) = Inr t"
    using th [THEN conjunct2] config_ok_Cache_init f by blast
  have "(\<forall>l \<in> {0..<unat (levels Cache_init)}.
           search_cache (cache_after t) l 0 0 = Inr (True, w_data (write_request 0 0x12345678))) \<and>
        sigs_after t = (write_request 0 0x12345678)\<lparr> ready := True \<rparr> \<and> waited t = 0"
    using th [THEN conjunct1, of t] t by blast
  then show ?thesis using t w config_ok_Cache_init f by (auto simp: Cache_init_fields)
qed

text \<open>
  C3 as stated fails. After the write of \<open>0x12345678\<close> to address 0 both levels of the cache
  hold the word, and the memory, which the pass never reaches, still answers 0 at address 0.
\<close>

theorem write_not_forwarded_counterexample:
  "then_search (process_cache Cache_init (write_request 0 0x12345678)) 0 0 = Inr (True, 0x12345678) \<and>
   then_search (process_cache Cache_init (write_request 0 0x12345678)) 1 0 = Inr (True, 0x12345678) \<and>
   map_sum id (r_data \<circ> snd) (process_memory Memory_init (read_request 0)) = Inr 0"
proof -
  have f: "access_fits Cache_init 0" by (rule access_fits_Cache_init) simp
  obtain c' where u: "update_levels Cache_init [0..<unat (levels Cache_init)] 0 0x12345678 = Inr c'"
    and inst: "\<forall>l \<in> {0..<unat (levels Cache_init)}. search_cache c' l 0 0 = Inr (True, 0x12345678)"
    using update_all_levels [OF config_ok_Cache_init f] by metis
  have "process_cache Cache_init (write_request 0 0x12345678) =
          Inr \<lparr> cache_after = c', sigs_after = (write_request 0 0x12345678)\<lparr> ready := True \<rparr>, waited = 0 \<rparr>"
    using u by (intro write_pass) (simp_all add: write_request_def)
  moreover have "search_cache c' 0 0 0 = Inr (True, 0x12345678)" "search_cache c' 1 0 0 = Inr (True, 0x12345678)"
    using inst by (simp_all add: Cache_init_fields)
  moreover have "map_sum id (r_data \<circ> snd) (process_memory Memory_init (read_request 0)) = Inr 0"
    by (simp add: process_memory_def read_request_def Memory_init_def page_size_def page_num_def)
  ultimately show ?thesis by (simp add: then_search_def)
qed

text \<open>
  C9. Two addresses with different tags and the same slot at a level: after \<open>a1\<close> is
  installed a lookup of \<open>a1\<close> hits; installing \<open>a2\<close> then puts its tag into the shared slot,
  with nothing kept of the resident tag, and a lookup of \<open>a1\<close> at that level misses while
  \<open>a2\<close> hits. This holds whenever the two installs return, and they return on a well-formed
  cache when both accesses lie inside one line.
\<close>

theorem conflict_overwrite:
  assumes "a1 div line_sizes c ! level \<noteq> a2 div line_sizes c ! level"
    and "unat (a1 div line_sizes c ! level) mod length (caches c ! level)
           = unat (a2 div line_sizes c ! level) mod length (caches c ! level)"
  shows "(update_cache c level a1 v1 = Inr c1 \<and> update_cache c1 level a2 v2 = Inr c2 \<longrightarrow>
            search_cache c1 level a1 d = Inr (True, v1) \<and>
            search_cache c2 level a1 d = Inr (False, d) \<and>
            search_cache c2 level a2 d = Inr (True, v2)) \<and>
         (config_ok c \<and> level < unat (levels c) \<and>
          unat (a1 mod line_sizes c ! level) + 4 \<le> unat (line_sizes c ! level) \<and>
          unat (a2 mod line_sizes c ! level) + 4 \<le> unat (line_sizes c ! level) \<longrightarrow>
            (\<exists>c1' c2'. update_cache c level a1 v1 = Inr c1' \<and> update_cache c1' level a2 v2 = Inr c2'))"
proof (intro conjI impI)
  assume u: "update_cache c level a1 v1 = Inr c1 \<and> update_cache c1 level a2 v2 = Inr c2"
  then have u1: "update_cache c level a1 v1 = Inr c1" and u2: "update_cache c1 level a2 v2 = Inr c2"
    by simp_all
  have c1: "line_sizes c1 = line_sizes c" "length (caches c1 ! level) = length (caches c ! level)"
    using u1 by (simp_all add: update_cache_config update_cache_lines_length)
  show "search_cache c1 level a1 d = Inr (True, v1)" using u1 by (rule search_after_update)
  show "search_cache c2 level a2 d = Inr (True, v2)" using u2 by (rule search_after_update)
  show "search_cache c2 level a1 d = Inr (False, d)"
    using search_conflict [OF u2, of a1 d] assms by (simp add: c1)
next
  assume h: "config_ok c \<and> level < unat (levels c) \<and>
          unat (a1 mod line_sizes c ! level) + 4 \<le> unat (line_sizes c ! level) \<and>
          unat (a2 mod line_sizes c ! level) + 4 \<le> unat (line_sizes c ! level)"
  then obtain c1' where u1: "update_cache c level a1 v1 = Inr c1'"
    using update_cache_ok [of c level a1 v1] by blast
  have c1: "config_ok c1'" "line_sizes c1' = line_sizes c" "levels c1' = levels c"
    using h u1 by (auto intro: config_ok_update simp: update_cache_config)
  obtain c2' where "update_cache c1' level a2 v2 = Inr c2'"
    using update_cache_ok [OF c1(1), of level a2 v2] h c1(2,3) by auto
  then show "\<exists>c1' c2'. update_cache c level a1 v1 = Inr c1' \<and> update_cache c1' level a2 v2 = Inr c2'"
    using u1 by blast
qed

theorem conflict_overwrite_witness:
  "(0 :: u32) div line_sizes Cache_init ! 0 \<noteq> 0x400 div line_sizes Cache_init ! 0 \<and>
   unat ((0 :: u32) div line_sizes Cache_init ! 0) mod length (caches Cache_init ! 0)
     = unat ((0x400 :: u32) div line_sizes Cache_init ! 0) mod length (caches Cache_init ! 0) \<and>
   config_ok Cache_init \<and> 0 < unat (levels Cache_init) \<and>
   (\<exists>c1 c2. update_cache Cache_init 0 0 0x12345678 = Inr c1 \<and> update_cache c1 0 0x400 0x55 = Inr c2 \<and>
      search_cache c1 0 0 0 = Inr (True, 0x12345678) \<and>
      search_cache c2 0 0 0 = Inr (False, 0) \<and>
      search_cache c2 0 0x400 0 = Inr (True, 0x55))"
proof -
  have l: "0 < unat (levels Cache_init)" by (simp add: Cache_init_fields)
  have f: "unat ((0 :: u32) mod line_sizes Cache_init ! 0) + 4 \<le> unat (line_sizes Cache_init ! 0)"
    "unat ((0x400 :: u32) mod line_sizes Cache_init ! 0) + 4 \<le> unat (line_sizes Cache_init ! 0)"
    by (simp_all add: Cache_init_fields)
  have t: "(0 :: u32) div line_sizes Cache_init ! 0 \<noteq> 0x400 div line_sizes Cache_init ! 0"
    by (simp add: Cache_init_fields)
  have i: "unat ((0 :: u32) div line_sizes Cache_init ! 0) mod length (caches Cache_init ! 0)
     = unat ((0x400 :: u32) div line_sizes Cache_init ! 0) mod length (caches Cache_init ! 0)"
    by (simp add: Cache_init_fields)
  note th = conflict_overwrite [OF t i, where ?v1.0 = "0x12345678" and ?v2.0 = "0x55" and d = 0]
  obtain c1 c2 where u: "update_cache Cache_init 0 0 0x12345678 = Inr c1"
      "update_cache c1 0 0x400 0x55 = Inr c2"
    using th [THEN conjunct2] config_ok_Cache_init l f by blast
  have "search_cache c1 0 0 0 = Inr (True, 0x12345678) \<and>
      search_cache c2 0 0 0 = Inr (False, 0) \<and>
      search_cache c2 0 0x400 0 = Inr (True, 0x55)"
    using th [THEN conjunct1, of c1 c2] u by blast
  then show ?thesis using u t i config_ok_Cache_init l by blast
qed

section \<open>The shape of the arrays\<close>

text \<open>
  C10. \<open>search_cache\<close> only reads. \<open>update_cache\<close> and a whole pass of \<open>process_cache\<close>,
  whenever they return, leave at every level \<open>cache_sizes[l] / line_sizes[l]\<close> lines of
  \<open>line_sizes[l]\<close> bytes each, with the sizes the constructor set; and a pass on a
  well-formed cache whose access lies inside one line does return.
\<close>

theorem structure_preserved:
  assumes "struct_inv c"
  shows "(update_cache c level a v = Inr c' \<longrightarrow>
            struct_inv c' \<and> cache_sizes c' = cache_sizes c \<and> line_sizes c' = line_sizes c \<and>
            levels c' = levels c) \<and>
         (process_cache c s = Inr t \<longrightarrow>
            struct_inv (cache_after t) \<and> cache_sizes (cache_after t) = cache_sizes c \<and>
            line_sizes (cache_after t) = line_sizes c \<and> levels (cache_after t) = levels c) \<and>
         (config_ok c \<and> access_fits c (address s) \<longrightarrow> (\<exists>t'. process_cache c s = Inr t'))"
proof (intro conjI impI)
  assume u: "update_cache c level a v = Inr c'"
  show "struct_inv c'" using assms u by (rule struct_inv_update)
  show "cache_sizes c' = cache_sizes c" "line_sizes c' = line_sizes c" "levels c' = levels c"
    using u by (simp_all add: update_cache_config)
next
  assume p: "process_cache c s = Inr t"
  show "struct_inv (cache_after t)" using assms p by (rule struct_inv_process)
  show "cache_sizes (cache_after t) = cache_sizes c" "line_sizes (cache_after t) = line_sizes c"
    "levels (cache_after t) = levels c"
    using process_cache_config [OF p] by simp_all
next
  assume "config_ok c \<and> access_fits c (address s)"
  then show "\<exists>t'. process_cache c s = Inr t'" using process_cache_ok by blast
qed

theorem structure_preserved_witness:
  "struct_inv Cache_init \<and> config_ok Cache_init \<and> access_fits Cache_init 0 \<and>
   (\<exists>t. process_cache Cache_init (write_request 0 0x12345678) = Inr t \<and>
      struct_inv (cache_after t) \<and> cache_sizes (cache_after t) = [1024, 2048] \<and>
      line_sizes (cache_after t) = [64, 64] \<and> levels (cache_after t) = 2)"
proof -
  have f: "access_fits Cache_init 0" by (rule access_fits_Cache_init) simp
  have a: "address (write_request 0 0x12345678) = 0" by (simp add: write_request_def)
  note sp = structure_preserved [OF struct_inv_Cache_init, where s = "write_request 0 0x12345678"]
  have "\<exists>t. process_cache Cache_init (write_request 0 0x12345678) = Inr t"
    using sp [THEN conjunct2, THEN conjunct2] config_ok_Cache_init f a by simp
  then obtain t where t: "process_cache Cache_init (write_request 0 0x12345678) = Inr t" ..
  then show ?thesis
    using sp [THEN conjunct2, THEN conjunct1, of t]
      struct_inv_Cache_init config_ok_Cache_init f
    by (simp add: Cache_init_fields)
qed

section \<open>Read and write raised together\<close>

text \<open>
  C2. \<open>Memory::process_memory\<close> tests \<open>read && write\<close> first and then does neither.
  \<open>Cache::process_cache\<close> has no such test: with both signals high it takes the read
  branch. On the constructed cache the request at \<open>0x1000\<close> misses, answers \<open>0xDEADBEEF\<close>
  with \<open>ready\<close> raised, and fills both levels, so lines that were invalid now hit.
\<close>

theorem simultaneous_request_served_as_read:
  "search_cache Cache_init 0 0x1000 0 = Inr (False, 0) \<and>
   map_sum id sigs_after (process_cache Cache_init (both_request 0x1000 0x55))
     = Inr ((both_request 0x1000 0x55)\<lparr> r_data := 0xDEADBEEF, ready := True \<rparr>) \<and>
   then_search (process_cache Cache_init (both_request 0x1000 0x55)) 0 0x1000 = Inr (True, 0xDEADBEEF) \<and>
   then_search (process_cache Cache_init (both_request 0x1000 0x55)) 1 0x1000 = Inr (True, 0xDEADBEEF) \<and>
   process_memory Memory_init (both_request 0x1000 0x55)
     = Inr (Memory_init, (both_request 0x1000 0x55)\<lparr> ready := True \<rparr>)"
proof -
  have f: "access_fits Cache_init 0x1000" by (rule access_fits_Cache_init) simp
  have m: "\<forall>l \<in> {0..<unat (levels Cache_init)}. search_cache Cache_init l 0x1000 0 = Inr (False, 0)"
    using cold_search [OF config_ok_Cache_init cold_Cache_init] by simp
  obtain c' where u: "update_levels Cache_init [0..<unat (levels Cache_init)] 0x1000 0xDEADBEEF = Inr c'"
    and inst: "\<forall>l \<in> {0..<unat (levels Cache_init)}. search_cache c' l 0x1000 0 = Inr (True, 0xDEADBEEF)"
    using update_all_levels [OF config_ok_Cache_init f] by metis
  have "process_cache Cache_init (both_request 0x1000 0x55) =
          Inr \<lparr> cache_after = c',
                sigs_after = (both_request 0x1000 0x55)\<lparr> r_data := 0xDEADBEEF, ready := True \<rparr>,
                waited = 0 \<rparr>"
    using m u by (intro read_miss_pass) (simp_all add: both_request_def)
  moreover have "search_cache c' 0 0x1000 0 = Inr (True, 0xDEADBEEF)"
    "search_cache c' 1 0x1000 0 = Inr (True, 0xDEADBEEF)"
    "search_cache Cache_init 0 0x1000 0 = Inr (False, 0)"
    using inst m by (simp_all add: Cache_init_fields)
  moreover have "process_memory Memory_init (both_request 0x1000 0x55)
     = Inr (Memory_init, (both_request 0x1000 0x55)\<lparr> ready := True \<rparr>)"
    by (simp add: process_memory_def both_request_def)
  ultimately show ?thesis by (simp add: then_search_def)
qed

section \<open>Accesses that run over the end of a line\<close>

text \<open>
  C4. An access with \<open>offset + 4 > line_size\<close> should be refused before any byte of a line
  is touched. Neither \<open>search_cache\<close> nor \<open>update_cache\<close> compares \<open>offset + 4\<close> with the
  line size. Address 62 has offset 62 in the 64-byte lines of the constructed cache. There
  the lookup of the invalid line is an ordinary miss, with no error. \<open>update_cache\<close> sets
  \<open>valid\<close> and \<open>tag\<close> and then indexes \<open>line.data[65]\<close>, past the end of the vector, so the
  install, and with it a write pass or the fill of a read miss, leaves defined behaviour.
  Once address 0 has been written, the lookup of address 62 finds its tag in the slot and
  reads \<open>line.data[64]\<close>, past the end as well.
\<close>

theorem line_end_access_unguarded:
  "unat (line_sizes Cache_init ! 0) < unat (62 mod line_sizes Cache_init ! 0) + 4 \<and>
   search_cache Cache_init 0 62 0 = Inr (False, 0) \<and>
   update_cache Cache_init 0 62 0x12345678 = Inl IndexOutOfRange \<and>
   process_cache Cache_init (write_request 62 0x12345678) = Inl IndexOutOfRange \<and>
   process_cache Cache_init (read_request 62) = Inl IndexOutOfRange \<and>
   then_search (process_cache Cache_init (write_request 0 0x12345678)) 0 62 = Inl IndexOutOfRange"
proof -
  have s: "search_cache Cache_init 0 62 0 = Inr (False, 0)"
    "search_cache Cache_init (Suc 0) 62 0 = Inr (False, 0)"
    using cold_search [OF config_ok_Cache_init cold_Cache_init, of _ 62 0]
    by (simp_all add: Cache_init_fields)
  have u: "update_cache Cache_init 0 62 v = Inl IndexOutOfRange" for v
    by (simp add: update_cache_def Cache_init_fields vec_at_def Let_def)
  have all: "[0..<unat (levels Cache_init)] = [0, Suc 0]"
    by (simp add: Cache_init_fields upt_rec)
  have w: "process_cache Cache_init (write_request 62 0x12345678) = Inl IndexOutOfRange"
    by (simp add: process_cache_def write_request_def Let_def all u)
  have r: "process_cache Cache_init (read_request 62) = Inl IndexOutOfRange"
    by (simp add: process_cache_def read_request_def Let_def all s u)
  have m: "then_search (process_cache Cache_init (write_request 0 0x12345678)) 0 62 = Inl IndexOutOfRange"
    by (simp add: then_search_def process_cache_def write_request_def search_cache_def
        update_cache_def Cache_init_fields vec_at_def Let_def upt_rec)
  show ?thesis using s(1) u w r m by (simp add: Cache_init_fields)
qed

end
